theory Spec2Isabelle
  imports Main
begin

section \<open>Data model\<close>

text \<open>
  Commands are heap objects reached through pointers (\<^verbatim>\<open>*Command\<close>): a pointer is an
  address or nil, and every non-nil pointer refers to a live object, so the heap is a
  total function from addresses to command structs and a nullable pointer is an
  \<open>addr option\<close>.
\<close>

type_synonym addr = nat

text \<open>
  Modelled from the spec: the flag-set primitive (package pflag) is an external
  collaborator whose code is not part of the repository.  The spec asks of it a lookup by
  name, a visit of every registered flag in a stable order, and registration of a flag.
  A flag set is modelled by the sequence of its registered flags: \<open>VisitAll\<close> walks the
  sequence, \<open>Lookup\<close> returns the first flag of that name, \<open>AddFlag\<close> registers at the
  end, \<open>HasFlags\<close> says whether anything is registered.  A flag carries the address of
  the storage its value is bound to, so that two definitions of one name can be told
  apart.  What the primitive does when a name or a shorthand is registered twice is its
  own business and not modelled; the merge registers a flag only after a lookup of its
  name has found nothing.
\<close>

record Flag =
  flag_Name :: string
  flag_Shorthand :: string
  flag_Usage :: string
  flag_DefValue :: string
  flag_Value :: addr

record FlagSet =
  fs_name :: string
  formal :: "Flag list"

definition NewFlagSet :: "string \<Rightarrow> FlagSet" where
  "NewFlagSet n = \<lparr>fs_name = n, formal = []\<rparr>"

definition Lookup :: "FlagSet \<Rightarrow> string \<Rightarrow> Flag option" where
  "Lookup fs n = find (\<lambda>f. flag_Name f = n) (formal fs)"

definition AddFlag :: "FlagSet \<Rightarrow> Flag \<Rightarrow> FlagSet" where
  "AddFlag fs f = fs\<lparr>formal := formal fs @ [f]\<rparr>"

definition FlagSet_HasFlags :: "FlagSet \<Rightarrow> bool" where
  "FlagSet_HasFlags fs = (0 < length (formal fs))"

text \<open>
  The struct \<^verbatim>\<open>Command\<close>.  \<open>Run\<close> is a function value: nil or an action, named here by a
  number.  \<open>flags\<close> and \<open>pflags\<close> are created on first access and belong to one command
  only; \<open>flagErrorBuf\<close> records whether the buffer has been allocated.  \<open>cmdr\<close> points
  to the commander, whose embedded command lives at that address.
\<close>

record Command =
  name :: string
  Use :: string
  Short :: string
  Long :: string
  flags :: "FlagSet option"
  pflags :: "FlagSet option"
  Run :: "nat option"
  commands :: "addr list"
  parent :: "addr option"
  cmdr :: "addr option"
  flagErrorBuf :: bool

type_synonym heap = "addr \<Rightarrow> Command"

datatype error =
    FindOnNil
  | ExecuteOnNil
  | UnknownSubcommand string
  | ParseError string

datatype panic =
    IndexOutOfRange
  | NilDereference
  | ChildOfItself

section \<open>Structural queries\<close>

text \<open>\<^verbatim>\<open>Name\<close>: the explicit name if set, else the use line up to its first space.\<close>

definition Name :: "Command \<Rightarrow> string" where
  "Name c = (if name c \<noteq> [] then name c
             else takeWhile (\<lambda>ch. ch \<noteq> CHR '' '') (Use c))"

definition Runnable :: "Command \<Rightarrow> bool" where
  "Runnable c = (Run c \<noteq> None)"

definition HasSubCommands :: "Command \<Rightarrow> bool" where
  "HasSubCommands c = (0 < length (commands c))"

text \<open>\<^verbatim>\<open>HasParent\<close> tests the parent pointer against nil; where the source tests it and then
  follows the pointer, the model distinguishes the two cases of \<open>parent\<close>.\<close>

section \<open>The resolver\<close>

text \<open>
  \<^verbatim>\<open>Find\<close> returns the target, the residual arguments and an error.  A nil slice is the
  empty list.  The loop over the children is \<open>Find_children\<close>, which holds the children
  still to be scanned; the recursive call of \<^verbatim>\<open>Find\<close> is made from inside the loop.  The
  flag \<^verbatim>\<open>validSubCommand\<close> is set only on the path that returns at once, so it is false
  wherever it is read.  The loop is entered with more than one argument only, so that
  \<open>hd args\<close> and \<open>tl args\<close> are \<^verbatim>\<open>args[0]\<close> and \<^verbatim>\<open>args[1:]\<close>.
\<close>

definition Find_here :: "heap \<Rightarrow> addr \<Rightarrow> string list
    \<Rightarrow> addr option \<times> string list \<times> error option" where
  "Find_here h c args =
     (if Runnable (h c) then (Some c, args, None) else (None, [], None))"

function Find :: "heap \<Rightarrow> addr option \<Rightarrow> string list
    \<Rightarrow> addr option \<times> string list \<times> error option"
  and Find_children :: "heap \<Rightarrow> addr \<Rightarrow> string list \<Rightarrow> addr list
    \<Rightarrow> addr option \<times> string list \<times> error option"
where
  "Find h None args = (None, [], Some FindOnNil)"
| "Find h (Some c) args =
     (if 1 < length args \<and> HasSubCommands (h c)
      then Find_children h c args (commands (h c))
      else Find_here h c args)"
| "Find_children h c args [] = Find_here h c args"
| "Find_children h c args (k # ks) =
     (if Name (h k) = hd args then Find h (Some k) (tl args)
      else Find_children h c args ks)"
  by pat_completeness auto
termination
  by (relation "inv_image (less_than <*lex*> less_than)
        (\<lambda>x. case x of
           Inl (h, c, args) \<Rightarrow>
             (length args,
              case c of None \<Rightarrow> 0
              | Some a \<Rightarrow> if 1 < length args then length (commands (h a)) + 2 else 0)
         | Inr (h, c, args, ks) \<Rightarrow> (length args, length ks + 1))")
     (auto simp: less_Suc_eq_le)

section \<open>Building the tree\<close>

text \<open>The zero value of the struct, and \<^verbatim>\<open>NewCommander\<close>, which makes the commander its own
  tree owner.\<close>

definition zero_Command :: Command where
  "zero_Command = \<lparr>name = [], Use = [], Short = [], Long = [], flags = None, pflags = None,
     Run = None, commands = [], parent = None, cmdr = None, flagErrorBuf = False\<rparr>"

definition NewCommander :: "heap \<Rightarrow> addr \<Rightarrow> heap" where
  "NewCommander h a = h(a := zero_Command\<lparr>cmdr := Some a\<rparr>)"

text \<open>
  \<^verbatim>\<open>AddCommand\<close> on the node \<open>c\<close>, with the arguments in order; an argument is a pointer
  and may be nil.  The result is the panic, if any, and the heap as the call leaves it:
  the arguments before the one that panics have been attached.  The three assignments
  of the loop body are kept apart: the parent, the owner read through the parent just
  written, the append.
\<close>

fun AddCommand :: "heap \<Rightarrow> addr \<Rightarrow> addr option list \<Rightarrow> panic option \<times> heap" where
  "AddCommand h c [] = (None, h)"
| "AddCommand h c (x # xs) =
     (case x of
        None \<Rightarrow> (Some NilDereference, h)
      | Some k \<Rightarrow>
          if k = c then (Some ChildOfItself, h)
          else
            let h1 = h(k := (h k)\<lparr>parent := Some c\<rparr>) in
            (case parent (h1 k) of
               None \<Rightarrow> (Some NilDereference, h1)
             | Some p \<Rightarrow>
                 let h2 = h1(k := (h1 k)\<lparr>cmdr := cmdr (h1 p)\<rparr>);
                     h3 = h2(c := (h2 c)\<lparr>commands := commands (h2 c) @ [k]\<rparr>)
                 in AddCommand h3 c xs))"

section \<open>Command path\<close>

text \<open>
  \<^verbatim>\<open>CommandPath\<close> climbs the parent pointers, putting each parent's name and a space in
  front of the string.  The loop runs for as long as there is a parent, so it is a
  partial function: \<open>None\<close> says that the call does not return.
\<close>

partial_function (option) CommandPath_loop :: "heap \<Rightarrow> addr \<Rightarrow> string \<Rightarrow> string option" where
  "CommandPath_loop h x str =
     (case parent (h x) of
        None \<Rightarrow> Some str
      | Some p \<Rightarrow> CommandPath_loop h p (Name (h p) @ '' '' @ str))"

definition CommandPath :: "heap \<Rightarrow> addr \<Rightarrow> string option" where
  "CommandPath h c = CommandPath_loop h c (Name (h c))"

section \<open>Flag sets of a command and the merge of inherited flags\<close>

text \<open>
  \<^verbatim>\<open>Flags\<close> and \<^verbatim>\<open>PersistentFlags\<close> create the set on first access; they return the set and
  the heap after the access.
\<close>

definition Flags :: "heap \<Rightarrow> addr \<Rightarrow> FlagSet \<times> heap" where
  "Flags h c =
     (case flags (h c) of
        Some fs \<Rightarrow> (fs, h)
      | None \<Rightarrow>
          let fs = NewFlagSet (Name (h c))
          in (fs, h(c := (h c)\<lparr>flags := Some fs, flagErrorBuf := True\<rparr>)))"

definition PersistentFlags :: "heap \<Rightarrow> addr \<Rightarrow> FlagSet \<times> heap" where
  "PersistentFlags h c =
     (case pflags (h c) of
        Some fs \<Rightarrow> (fs, h)
      | None \<Rightarrow>
          let fs = NewFlagSet (Name (h c))
          in (fs, h(c := (h c)\<lparr>pflags := Some fs, flagErrorBuf := True\<rparr>)))"

definition HasPersistentFlags :: "heap \<Rightarrow> addr \<Rightarrow> bool \<times> heap" where
  "HasPersistentFlags h c = (let (fs, h1) = PersistentFlags h c in (FlagSet_HasFlags fs, h1))"

text \<open>The callback of the visit: the flag \<open>f\<close> of an ancestor is registered in the
  target's local set unless a flag of that name is there already.\<close>

definition merge_flag :: "addr \<Rightarrow> heap \<Rightarrow> Flag \<Rightarrow> heap" where
  "merge_flag c h f =
     (let (fs, h1) = Flags h c in
      if Lookup fs (flag_Name f) = None
      then (let (fs2, h2) = Flags h1 c
            in h2(c := (h2 c)\<lparr>flags := Some (AddFlag fs2 f)\<rparr>))
      else h1)"

text \<open>The body of the closure \<^verbatim>\<open>rmerge\<close> up to its recursive call, at the node \<open>x\<close> for
  the target \<open>c\<close>.\<close>

definition rmerge_visit :: "heap \<Rightarrow> addr \<Rightarrow> addr \<Rightarrow> heap" where
  "rmerge_visit h c x =
     (let (has, h1) = HasPersistentFlags h x in
      if has
      then (let (pfs, h2) = PersistentFlags h1 x in foldl (merge_flag c) h2 (formal pfs))
      else h1)"

partial_function (option) rmerge :: "heap \<Rightarrow> addr \<Rightarrow> addr \<Rightarrow> heap option" where
  "rmerge h c x =
     (let h1 = rmerge_visit h c x in
      case parent (h1 x) of
        None \<Rightarrow> Some h1
      | Some p \<Rightarrow> rmerge h1 c p)"

definition mergePersistentFlags :: "heap \<Rightarrow> addr \<Rightarrow> heap option" where
  "mergePersistentFlags h c = rmerge h c c"

text \<open>What a name resolves to in the local set and in the inheritable set of a node; a
  set that has not been created holds nothing.\<close>

definition local_flag :: "heap \<Rightarrow> addr \<Rightarrow> string \<Rightarrow> Flag option" where
  "local_flag h c n = (case flags (h c) of None \<Rightarrow> None | Some fs \<Rightarrow> Lookup fs n)"

definition persistent_flag :: "heap \<Rightarrow> addr \<Rightarrow> string \<Rightarrow> Flag option" where
  "persistent_flag h c n = (case pflags (h c) of None \<Rightarrow> None | Some fs \<Rightarrow> Lookup fs n)"

section \<open>The dispatcher\<close>

text \<open>
  Modelled from the spec: the parser of the flag-set primitive, a parameter here.  It
  takes the flag set and the tokens and gives either the text of a parse error or the
  positional arguments left over (what \<^verbatim>\<open>Flags().Args()\<close> returns afterwards).

  \<^verbatim>\<open>ParseFlags\<close> merges the inherited flags and parses; on a nil command the first thing
  it does is read a field of the command.
\<close>

type_synonym parser = "FlagSet \<Rightarrow> string list \<Rightarrow> string + string list"

definition ParseFlags :: "parser \<Rightarrow> heap \<Rightarrow> addr \<Rightarrow> string list
    \<Rightarrow> (heap \<times> (string + string list)) option" where
  "ParseFlags parse h c args =
     (case mergePersistentFlags h c of
        None \<Rightarrow> None
      | Some h1 \<Rightarrow> (let (fs, h2) = Flags h1 c in Some (h2, parse fs args)))"

text \<open>
  The outcome of \<^verbatim>\<open>execute\<close>: a panic, an error returned, or the run action \<open>r\<close> of the
  command \<open>t\<close> invoked on the arguments and nil returned.  \<open>None\<close> says that the call does
  not return.  The first statement builds the unknown-subcommand error from \<^verbatim>\<open>args[0]\<close>;
  the variable is assigned again on every path that returns it.  Rendering the usage text
  is outside the model, apart from its reading the owner of the command.
\<close>

datatype exec_result =
    Panicked panic
  | Failed error
  | Ran nat addr "string list"

definition execute :: "parser \<Rightarrow> heap \<Rightarrow> addr option \<Rightarrow> string list \<Rightarrow> exec_result option" where
  "execute parse h c args =
     (case args of
        [] \<Rightarrow> Some (Panicked IndexOutOfRange)
      | a0 # _ \<Rightarrow>
          (case c of
             None \<Rightarrow> Some (Failed ExecuteOnNil)
           | Some r \<Rightarrow>
               (case Find h (Some r) args of
                  (cmd, a, Some e) \<Rightarrow> Some (Failed e)
                | (cmd, a, None) \<Rightarrow>
                    (case cmd of
                       None \<Rightarrow> Some (Panicked NilDereference)
                     | Some t \<Rightarrow>
                         (case ParseFlags parse h t a of
                            None \<Rightarrow> None
                          | Some (h1, Inl msg) \<Rightarrow>
                              (if cmdr (h1 t) = None then Some (Panicked NilDereference)
                               else Some (Failed (ParseError msg)))
                          | Some (h1, Inr rest) \<Rightarrow>
                              (case Run (h1 t) of
                                 None \<Rightarrow> Some (Panicked NilDereference)
                               | Some act \<Rightarrow> Some (Ran act t rest)))))))"

text \<open>The commander: its embedded command and the arguments set by \<^verbatim>\<open>SetArgs\<close>.
  \<^verbatim>\<open>Execute\<close> falls back on the arguments of the process, \<open>os_args\<close>.\<close>

record Commander =
  embedded :: addr
  cmdr_args :: "string list"

definition Commander_Execute :: "parser \<Rightarrow> string list \<Rightarrow> heap \<Rightarrow> Commander
    \<Rightarrow> exec_result option" where
  "Commander_Execute parse os_args h c =
     (if length (cmdr_args c) = 0 then execute parse h (Some (embedded c)) os_args
      else execute parse h (Some (embedded c)) (cmdr_args c))"

section \<open>Specification-side notions\<close>

text \<open>
  The nodes from \<open>c\<close> up to a root along the parent pointers: \<open>parent_chain h c xs\<close> holds
  when \<open>xs\<close> starts at \<open>c\<close>, each next element is the parent of the one before, and the
  last has no parent.  Such a list exists exactly when the climb from \<open>c\<close> ends.
\<close>

inductive parent_chain :: "heap \<Rightarrow> addr \<Rightarrow> addr list \<Rightarrow> bool" where
  at_root: "parent (h c) = None \<Longrightarrow> parent_chain h c [c]"
| climb: "parent (h c) = Some p \<Longrightarrow> parent_chain h p xs \<Longrightarrow> parent_chain h c (c # xs)"

text \<open>Strings joined by single spaces.\<close>

fun join_spaces :: "string list \<Rightarrow> string" where
  "join_spaces [] = []"
| "join_spaces [x] = x"
| "join_spaces (x # y # ys) = x @ '' '' @ join_spaces (y # ys)"

text \<open>
  The first definition of a name met in the inheritable sets of the nodes of a list, taken
  in order.
\<close>

fun first_persistent :: "heap \<Rightarrow> addr list \<Rightarrow> string \<Rightarrow> Flag option" where
  "first_persistent h [] n = None"
| "first_persistent h (x # xs) n =
     (case persistent_flag h x n of
        Some f \<Rightarrow> Some f
      | None \<Rightarrow> first_persistent h xs n)"

text \<open>What a name resolves to in the local set of the target once the merge has returned.\<close>

definition merged_flag :: "heap \<Rightarrow> addr \<Rightarrow> string \<Rightarrow> Flag option" where
  "merged_flag h c n =
     (case mergePersistentFlags h c of None \<Rightarrow> None | Some h' \<Rightarrow> local_flag h' c n)"

text \<open>The merge called twice in succession.\<close>

definition merge_twice :: "heap \<Rightarrow> addr \<Rightarrow> heap option" where
  "merge_twice h c =
     (case mergePersistentFlags h c of None \<Rightarrow> None | Some h1 \<Rightarrow> mergePersistentFlags h1 c)"

text \<open>The inheritable set of \<open>x\<close> exists and the local set of \<open>c\<close> holds a flag for each of
  its names: a visit of \<open>x\<close> for the target \<open>c\<close> has nothing left to do.\<close>

definition saturated :: "heap \<Rightarrow> addr \<Rightarrow> addr \<Rightarrow> bool" where
  "saturated h c x =
     (case pflags (h x) of
        None \<Rightarrow> False
      | Some pfs \<Rightarrow> list_all (\<lambda>f. local_flag h c (flag_Name f) \<noteq> None) (formal pfs))"

section \<open>Example trees\<close>

definition fresh :: heap where
  "fresh = (\<lambda>_. zero_Command)"

text \<open>A runnable root with two runnable children that are both named \<open>sub\<close>.\<close>

definition app_heap :: heap where
  "app_heap = snd (AddCommand
     (fresh(0 := zero_Command\<lparr>Use := ''app'', Run := Some 0\<rparr>,
            1 := zero_Command\<lparr>Use := ''sub [file]'', Run := Some 1\<rparr>,
            2 := zero_Command\<lparr>name := ''sub'', Use := ''other'', Run := Some 2\<rparr>))
     0 [Some 1, Some 2])"

text \<open>A root with no run action and no children.\<close>

definition bogus_heap :: heap where
  "bogus_heap = fresh(0 := zero_Command\<lparr>Use := ''app''\<rparr>)"

text \<open>A parser that takes every token as a positional argument.\<close>

definition all_positional :: parser where
  "all_positional fs toks = Inr toks"

text \<open>Two nodes, each then added as a child of the other.\<close>

definition two_nodes :: heap where
  "two_nodes = fresh(0 := zero_Command\<lparr>Use := ''a''\<rparr>, 1 := zero_Command\<lparr>Use := ''b''\<rparr>)"

definition cyclic_heap :: heap where
  "cyclic_heap = snd (AddCommand (snd (AddCommand two_nodes 0 [Some 1])) 1 [Some 0])"

text \<open>
  A commander at address 0, a node \<open>sub\<close> and a runnable leaf.  Bottom-up the leaf is
  attached to \<open>sub\<close> first and \<open>sub\<close> to the commander afterwards; top-down \<open>sub\<close> is
  attached to the commander first and the leaf to \<open>sub\<close> afterwards.
\<close>

definition owned_root :: heap where
  "owned_root = (NewCommander fresh 0)
     (1 := zero_Command\<lparr>Use := ''sub''\<rparr>, 2 := zero_Command\<lparr>Use := ''leaf'', Run := Some 2\<rparr>)"

definition bottom_up_tree :: heap where
  "bottom_up_tree = snd (AddCommand (snd (AddCommand owned_root 1 [Some 2])) 0 [Some 1])"

definition top_down_tree :: heap where
  "top_down_tree = snd (AddCommand (snd (AddCommand owned_root 0 [Some 1])) 1 [Some 2])"

text \<open>A parser that rejects whatever it is given.\<close>

definition failing_parser :: parser where
  "failing_parser fs toks = Inl ''unknown flag''"

text \<open>A runnable root with three runnable children: one named \<open>first\<close>, then two that are
  both named \<open>sub\<close>.\<close>

definition dup_heap :: heap where
  "dup_heap = snd (AddCommand
     (fresh(0 := zero_Command\<lparr>Use := ''app'', Run := Some 0\<rparr>,
            1 := zero_Command\<lparr>Use := ''first'', Run := Some 1\<rparr>,
            2 := zero_Command\<lparr>Use := ''sub [file]'', Run := Some 2\<rparr>,
            3 := zero_Command\<lparr>name := ''sub'', Use := ''other'', Run := Some 3\<rparr>))
     0 [Some 1, Some 2, Some 3])"

text \<open>
  A root, a child and a grandchild; root and child each have an inheritable flag \<open>x\<close>, bound
  to different storage.  In the two variants the grandchild has a flag \<open>x\<close> of its own, in
  its inheritable set or in its local set.
\<close>

definition xflag :: "addr \<Rightarrow> Flag" where
  "xflag v = \<lparr>flag_Name = ''x'', flag_Shorthand = [], flag_Usage = [], flag_DefValue = [],
     flag_Value = v\<rparr>"

definition three_level :: heap where
  "three_level = snd (AddCommand (snd (AddCommand
     (fresh(0 := zero_Command\<lparr>Use := ''root'',
                 pflags := Some \<lparr>fs_name = ''root'', formal = [xflag 100]\<rparr>\<rparr>,
            1 := zero_Command\<lparr>Use := ''mid'',
                 pflags := Some \<lparr>fs_name = ''mid'', formal = [xflag 101]\<rparr>\<rparr>,
            2 := zero_Command\<lparr>Use := ''leaf''\<rparr>))
     0 [Some 1])) 1 [Some 2])"

definition own_persistent_tree :: heap where
  "own_persistent_tree = three_level
     (2 := (three_level 2)\<lparr>pflags := Some \<lparr>fs_name = ''leaf'', formal = [xflag 102]\<rparr>\<rparr>)"

definition own_local_tree :: heap where
  "own_local_tree = three_level
     (2 := (three_level 2)\<lparr>flags := Some \<lparr>fs_name = ''leaf'', formal = [xflag 102]\<rparr>\<rparr>)"

section \<open>The resolver: proofs\<close>

lemma app_heap_simps:
  "app_heap 0 = zero_Command\<lparr>Use := ''app'', Run := Some 0, commands := [1, 2]\<rparr>"
  "app_heap (Suc 0) = zero_Command\<lparr>Use := ''sub [file]'', Run := Some 1, parent := Some 0\<rparr>"
  "app_heap 2 = zero_Command\<lparr>name := ''sub'', Use := ''other'', Run := Some 2, parent := Some 0\<rparr>"
  by (simp_all add: app_heap_def fresh_def zero_Command_def Let_def)

lemma Find_children_no_match:
  "\<forall>k \<in> set ks. Name (h k) \<noteq> hd args \<Longrightarrow> Find_children h c args ks = Find_here h c args"
  by (induction ks) simp_all

lemma Find_children_first_match:
  "\<forall>j \<in> set pre. Name (h j) \<noteq> hd args \<Longrightarrow> Name (h k) = hd args \<Longrightarrow>
   Find_children h c args (pre @ k # post) = Find h (Some k) (tl args)"
  by (induction pre) simp_all

lemma dup_heap_simps:
  "dup_heap 0 = zero_Command\<lparr>Use := ''app'', Run := Some 0, commands := [1, 2, 3]\<rparr>"
  "dup_heap (Suc 0) = zero_Command\<lparr>Use := ''first'', Run := Some 1, parent := Some 0\<rparr>"
  "dup_heap 2 = zero_Command\<lparr>Use := ''sub [file]'', Run := Some 2, parent := Some 0\<rparr>"
  "dup_heap 3 = zero_Command\<lparr>name := ''sub'', Use := ''other'', Run := Some 3, parent := Some 0\<rparr>"
  by (simp_all add: dup_heap_def fresh_def zero_Command_def Let_def)

text \<open>
  Claim C2.  If the argument list has more than one element and the children of the node,
  in insertion order, are \<open>pre @ k # post\<close> where no child in \<open>pre\<close> is named \<open>args[0]\<close> and
  \<open>k\<close> is, then \<open>Find\<close> on the node is \<open>Find\<close> on \<open>k\<close> with \<open>args[1:]\<close>, whatever the
  names in \<open>post\<close>: of several siblings of one name the first is taken.  Where the descent
  ends at \<open>k\<close>, because no child of \<open>k\<close> is matched by \<open>args[1:]\<close>, the result is \<open>k\<close> itself
  with \<open>args[1:]\<close> if \<open>k\<close> is runnable, and nil, nil, nil if it is not.
\<close>

theorem Find_first_match:
  assumes "1 < length args" and "commands (h c) = pre @ k # post"
    and "\<forall>j \<in> set pre. Name (h j) \<noteq> hd args" and "Name (h k) = hd args"
  shows "Find h (Some c) args = Find h (Some k) (tl args)
       \<and> (\<not> (1 < length (tl args)
               \<and> (\<exists>j \<in> set (commands (h k)). Name (h j) = hd (tl args))) \<longrightarrow>
            Find h (Some c) args =
              (if Runnable (h k) then (Some k, tl args, None) else (None, [], None)))"
proof -
  have e: "Find h (Some c) args = Find h (Some k) (tl args)"
    using assms by (simp add: HasSubCommands_def Find_children_first_match)
  have "Find h (Some k) (tl args) = Find_here h k (tl args)"
    if "\<not> (1 < length (tl args) \<and> (\<exists>j \<in> set (commands (h k)). Name (h j) = hd (tl args)))"
    using that by (auto simp: Find_children_no_match)
  with e show ?thesis by (simp add: Find_here_def)
qed

text \<open>The second and third child of the example root are both named \<open>sub\<close>, the first is
  not; the second child is the target.\<close>

theorem Find_first_match_witness:
  "1 < length [''sub'', ''f.txt''] \<and> commands (dup_heap 0) = [1] @ 2 # [3]
   \<and> Name (dup_heap 1) \<noteq> hd [''sub'', ''f.txt'']
   \<and> Name (dup_heap 2) = hd [''sub'', ''f.txt'']
   \<and> Name (dup_heap 3) = hd [''sub'', ''f.txt'']
   \<and> Runnable (dup_heap 2) \<and> Runnable (dup_heap 3)
   \<and> Find dup_heap (Some 0) [''sub'', ''f.txt''] = (Some 2, [''f.txt''], None)"
proof -
  have a: "1 < length [''sub'', ''f.txt'']" "commands (dup_heap 0) = [1] @ 2 # [3]"
    "\<forall>j \<in> set [1]. Name (dup_heap j) \<noteq> hd [''sub'', ''f.txt'']"
    "Name (dup_heap 2) = hd [''sub'', ''f.txt'']"
    by (simp_all add: dup_heap_simps zero_Command_def Name_def)
  have b: "Name (dup_heap 3) = hd [''sub'', ''f.txt'']" "Runnable (dup_heap 2)"
    "Runnable (dup_heap 3)"
    by (simp_all add: dup_heap_simps zero_Command_def Name_def Runnable_def)
  from Find_first_match [OF a, THEN conjunct2] b(2)
  have "Find dup_heap (Some 0) [''sub'', ''f.txt''] = (Some 2, [''f.txt''], None)"
    by (simp del: Find.simps)
  with a b show ?thesis by (simp del: Find.simps)
qed

text \<open>
  Claim C3.  When no child is matched, that is, unless there is more than one argument
  and some child is named \<open>args[0]\<close>, \<open>Find\<close> returns the node with the arguments unchanged
  and no error if the node is runnable, and nil, nil, nil if it is not.  In particular a
  runnable root and the empty argument list give the root and the empty list.
\<close>

theorem Find_no_child_matched:
  "(\<not> (1 < length args \<and> (\<exists>k \<in> set (commands (h c)). Name (h k) = hd args)) \<longrightarrow>
      Find h (Some c) args =
        (if Runnable (h c) then (Some c, args, None) else (None, [], None)))
   \<and> (Runnable (h c) \<longrightarrow> Find h (Some c) [] = (Some c, [], None))"
  by (auto simp: Find_children_no_match Find_here_def)

text \<open>One argument that is the name of a child: the child is not entered.\<close>

theorem Find_no_child_matched_witness:
  "\<not> (1 < length [''sub'']
        \<and> (\<exists>k \<in> set (commands (app_heap 0)). Name (app_heap k) = hd [''sub'']))
   \<and> Runnable (app_heap 0)
   \<and> Find app_heap (Some 0) [''sub''] = (Some 0, [''sub''], None)
   \<and> Find app_heap (Some 0) [] = (Some 0, [], None)"
  using Find_no_child_matched [of "[''sub'']" app_heap 0]
  by (simp add: app_heap_simps zero_Command_def Runnable_def)

section \<open>The dispatcher: proofs\<close>

text \<open>
  Claim C1.  The claim asks for an unknown-subcommand error when the resolver returns a
  nil target and a nil error.  On a root with no run action and no children and the
  arguments \<open>[bogus]\<close> the resolver returns nil, nil, nil, and \<open>execute\<close> goes on to parse
  flags on the nil target, which panics.
\<close>

theorem execute_unknown_subcommand_panics:
  "Find bogus_heap (Some 0) [''bogus''] = (None, [], None)
   \<and> execute parse bogus_heap (Some 0) [''bogus''] = Some (Panicked NilDereference)"
  by (simp add: execute_def bogus_heap_def fresh_def zero_Command_def Find_here_def Runnable_def)

text \<open>
  Claim C10.  On the empty argument list \<open>execute\<close> panics with an index out of range,
  whatever the tree, and so does the commander's \<open>Execute\<close> when neither it nor the
  process has arguments; yet the resolver alone, on a runnable root and the empty list,
  returns the root.
\<close>

theorem execute_empty_args_panics:
  "execute parse h c [] = Some (Panicked IndexOutOfRange)
   \<and> Commander_Execute parse [] h \<lparr>embedded = r, cmdr_args = []\<rparr>
       = Some (Panicked IndexOutOfRange)
   \<and> (Runnable (h r) \<longrightarrow> Find h (Some r) [] = (Some r, [], None))"
  by (simp add: execute_def Commander_Execute_def Find_here_def)

theorem execute_empty_args_panics_witness:
  "Runnable (app_heap 0) \<and> Find app_heap (Some 0) [] = (Some 0, [], None)
   \<and> execute all_positional app_heap (Some 0) [] = Some (Panicked IndexOutOfRange)
   \<and> Commander_Execute all_positional [] app_heap \<lparr>embedded = 0, cmdr_args = []\<rparr>
       = Some (Panicked IndexOutOfRange)"
  using execute_empty_args_panics [of all_positional app_heap "Some 0" 0]
  by (simp add: app_heap_simps zero_Command_def Runnable_def)

section \<open>Building the tree: proofs\<close>

lemma AddCommand_self_general:
  "Some c \<in> set cmds \<Longrightarrow>
   \<exists>p h'. AddCommand h c cmds = (Some p, h')
     \<and> p = (if None \<in> set (takeWhile (\<lambda>x. x \<noteq> Some c) cmds) then NilDereference else ChildOfItself)
     \<and> count_list (commands (h' c)) c = count_list (commands (h c)) c
     \<and> parent (h' c) = parent (h c)"
proof (induction cmds arbitrary: h)
  case Nil
  then show ?case by simp
next
  case (Cons x xs)
  show ?case
  proof (cases x)
    case None
    then show ?thesis by simp
  next
    case (Some k)
    show ?thesis
    proof (cases "k = c")
      case True
      with Some show ?thesis by simp
    next
      case False
      let ?h3 = "h(k := (h k)\<lparr>parent := Some c, cmdr := cmdr (h c)\<rparr>,
                   c := (h c)\<lparr>commands := commands (h c) @ [k]\<rparr>)"
      from False Some Cons.prems have "Some c \<in> set xs" by auto
      from Cons.IH [OF this, of ?h3] obtain p h' where
        r: "AddCommand ?h3 c xs = (Some p, h')"
           "p = (if None \<in> set (takeWhile (\<lambda>x. x \<noteq> Some c) xs) then NilDereference else ChildOfItself)"
           "count_list (commands (h' c)) c = count_list (commands (?h3 c)) c"
           "parent (h' c) = parent (?h3 c)"
        by blast
      have "AddCommand h c (x # xs) = AddCommand ?h3 c xs"
        using False Some by (simp add: Let_def)
      with r False Some show ?thesis by simp
    qed
  qed
qed

lemma AddCommand_no_self_parent:
  "AddCommand h c cmds = (e, h') \<Longrightarrow> parent (h' k) = Some k \<Longrightarrow> parent (h k) = Some k"
proof (induction cmds arbitrary: h)
  case Nil
  then show ?case by simp
next
  case (Cons x xs)
  show ?case
  proof (cases x)
    case None
    with Cons.prems show ?thesis by simp
  next
    case (Some j)
    show ?thesis
    proof (cases "j = c")
      case True
      with Some Cons.prems show ?thesis by simp
    next
      case False
      let ?h3 = "h(j := (h j)\<lparr>parent := Some c, cmdr := cmdr (h c)\<rparr>,
                   c := (h c)\<lparr>commands := commands (h c) @ [j]\<rparr>)"
      have "AddCommand ?h3 c xs = (e, h')"
        using False Some Cons.prems(1) by (simp add: Let_def)
      from Cons.IH [OF this Cons.prems(2)] have "parent (?h3 k) = Some k" .
      with False show ?thesis by (simp split: if_splits)
    qed
  qed
qed

text \<open>Insertion order: a call that returns has appended its arguments, in order, to the
  children of the node.\<close>

lemma AddCommand_appends:
  "AddCommand h c cmds = (None, h') \<Longrightarrow>
   map Some (commands (h' c)) = map Some (commands (h c)) @ cmds"
proof (induction cmds arbitrary: h)
  case Nil
  then show ?case by simp
next
  case (Cons x xs)
  show ?case
  proof (cases x)
    case None
    with Cons.prems show ?thesis by simp
  next
    case (Some k)
    show ?thesis
    proof (cases "k = c")
      case True
      with Some Cons.prems show ?thesis by simp
    next
      case False
      let ?h3 = "h(k := (h k)\<lparr>parent := Some c, cmdr := cmdr (h c)\<rparr>,
                   c := (h c)\<lparr>commands := commands (h c) @ [k]\<rparr>)"
      have "AddCommand ?h3 c xs = (None, h')"
        using False Some Cons.prems by (simp add: Let_def)
      from Cons.IH [OF this] Some show ?thesis by simp
    qed
  qed
qed

text \<open>
  Claim C7.  When the arguments of \<open>AddCommand\<close> on the node \<open>c\<close> contain \<open>c\<close>, the call
  panics: with the self-child message, or with a nil dereference if a nil argument comes
  before \<open>c\<close>.  In the heap it leaves, \<open>c\<close> occurs among its own children as often as
  before and its parent is what it was.  When \<open>c\<close> is the first argument nothing has been
  changed.  And no call of \<open>AddCommand\<close>, panicking or not, makes a node its own parent.
\<close>

theorem AddCommand_self_panics:
  "(Some c \<in> set cmds \<longrightarrow>
      (\<exists>p h'. AddCommand h c cmds = (Some p, h')
         \<and> p = (if None \<in> set (takeWhile (\<lambda>x. x \<noteq> Some c) cmds)
                then NilDereference else ChildOfItself)
         \<and> count_list (commands (h' c)) c = count_list (commands (h c)) c
         \<and> parent (h' c) = parent (h c)))
   \<and> AddCommand h c (Some c # rest) = (Some ChildOfItself, h)
   \<and> (\<forall>k. parent (snd (AddCommand h c cmds) k) = Some k \<longrightarrow> parent (h k) = Some k)"
  using AddCommand_self_general [of c cmds h]
    AddCommand_no_self_parent [of h c cmds "fst (AddCommand h c cmds)" "snd (AddCommand h c cmds)"]
  by simp

text \<open>The node itself as second argument: the first argument is attached, then the panic.\<close>

theorem AddCommand_self_panics_witness:
  "Some 0 \<in> set [Some 1, Some 0, Some 2]
   \<and> AddCommand two_nodes 0 [Some 1, Some 0, Some 2]
       = (Some ChildOfItself, snd (AddCommand two_nodes 0 [Some 1]))
   \<and> commands (snd (AddCommand two_nodes 0 [Some 1, Some 0, Some 2]) 0) = [1]
   \<and> parent (snd (AddCommand two_nodes 0 [Some 1, Some 0, Some 2]) 0) = None"
  using AddCommand_self_panics [of 0 "[Some 1, Some 0, Some 2]" two_nodes]
  by (simp add: two_nodes_def fresh_def zero_Command_def Let_def)

text \<open>The owners after a call that returns: the arguments have the owner of the node
  they were added to, every other node has the owner it had.\<close>

lemma AddCommand_cmdr:
  "AddCommand h c cmds = (None, h') \<Longrightarrow>
   cmdr (h' d) = (if Some d \<in> set cmds then cmdr (h c) else cmdr (h d))"
proof (induction cmds arbitrary: h)
  case Nil
  then show ?case by simp
next
  case (Cons x xs)
  show ?case
  proof (cases x)
    case None
    with Cons.prems show ?thesis by simp
  next
    case (Some k)
    show ?thesis
    proof (cases "k = c")
      case True
      with Some Cons.prems show ?thesis by simp
    next
      case False
      let ?h3 = "h(k := (h k)\<lparr>parent := Some c, cmdr := cmdr (h c)\<rparr>,
                   c := (h c)\<lparr>commands := commands (h c) @ [k]\<rparr>)"
      have "AddCommand ?h3 c xs = (None, h')"
        using False Some Cons.prems by (simp add: Let_def)
      from Cons.IH [OF this]
      have "cmdr (h' d) = (if Some d \<in> set xs then cmdr (?h3 c) else cmdr (?h3 d))" .
      with False Some show ?thesis by auto
    qed
  qed
qed

lemma bottom_up_simps:
  "bottom_up_tree 0 = zero_Command\<lparr>commands := [1], cmdr := Some 0\<rparr>"
  "bottom_up_tree (Suc 0) = zero_Command\<lparr>Use := ''sub'', commands := [2], parent := Some 0, cmdr := Some 0\<rparr>"
  "bottom_up_tree 2 = zero_Command\<lparr>Use := ''leaf'', Run := Some 2, parent := Some 1\<rparr>"
  by (simp_all add: bottom_up_tree_def owned_root_def NewCommander_def fresh_def zero_Command_def Let_def)

lemma top_down_simps:
  "top_down_tree 0 = zero_Command\<lparr>commands := [1], cmdr := Some 0\<rparr>"
  "top_down_tree (Suc 0) = zero_Command\<lparr>Use := ''sub'', commands := [2], parent := Some 0, cmdr := Some 0\<rparr>"
  "top_down_tree 2 = zero_Command\<lparr>Use := ''leaf'', Run := Some 2, parent := Some 1, cmdr := Some 0\<rparr>"
  by (simp_all add: top_down_tree_def owned_root_def NewCommander_def fresh_def zero_Command_def Let_def)

lemma exec_bottom_up:
  "execute failing_parser bottom_up_tree (Some 0) [''sub'', ''leaf'', ''--bad'']
     = Some (Panicked NilDereference)"
  by (simp add: execute_def ParseFlags_def mergePersistentFlags_def rmerge.simps rmerge_visit_def
      HasPersistentFlags_def PersistentFlags_def FlagSet_HasFlags_def NewFlagSet_def Flags_def
      bottom_up_simps zero_Command_def Name_def Find_here_def Runnable_def HasSubCommands_def
      failing_parser_def Let_def)

lemma exec_top_down:
  "execute failing_parser top_down_tree (Some 0) [''sub'', ''leaf'', ''--bad'']
     = Some (Failed (ParseError ''unknown flag''))"
  by (simp add: execute_def ParseFlags_def mergePersistentFlags_def rmerge.simps rmerge_visit_def
      HasPersistentFlags_def PersistentFlags_def FlagSet_HasFlags_def NewFlagSet_def Flags_def
      top_down_simps zero_Command_def Name_def Find_here_def Runnable_def HasSubCommands_def
      failing_parser_def Let_def)

text \<open>
  Claim C8.  The claim asks that every node of an attached subtree ends up with the owner
  of the tree it is attached to.  Bottom-up, \<open>sub\<close> gets the commander as owner and the
  leaf below it keeps none; \<open>execute\<close> resolves the leaf, the parser rejects the flag, and
  rendering the usage reads the owner of the leaf, which panics.  The same tree built
  top-down has the commander as owner of the leaf, and \<open>execute\<close> returns the parse error.
\<close>

theorem AddCommand_owner_not_propagated:
  "fst (AddCommand owned_root 1 [Some 2]) = None
   \<and> fst (AddCommand (snd (AddCommand owned_root 1 [Some 2])) 0 [Some 1]) = None
   \<and> commands (bottom_up_tree 0) = [1] \<and> commands (bottom_up_tree 1) = [2]
   \<and> parent (bottom_up_tree 1) = Some 0 \<and> parent (bottom_up_tree 2) = Some 1
   \<and> cmdr (bottom_up_tree 0) = Some 0 \<and> cmdr (bottom_up_tree 1) = Some 0
   \<and> cmdr (bottom_up_tree 2) = None
   \<and> execute failing_parser bottom_up_tree (Some 0) [''sub'', ''leaf'', ''--bad'']
       = Some (Panicked NilDereference)
   \<and> cmdr (top_down_tree 2) = Some 0
   \<and> execute failing_parser top_down_tree (Some 0) [''sub'', ''leaf'', ''--bad'']
       = Some (Failed (ParseError ''unknown flag''))"
  by (simp add: exec_bottom_up exec_top_down bottom_up_simps top_down_simps zero_Command_def
      owned_root_def NewCommander_def fresh_def Let_def)

section \<open>Command path: proofs\<close>

lemma join_spaces_snoc: "xs \<noteq> [] \<Longrightarrow> join_spaces (xs @ [z]) = join_spaces xs @ '' '' @ z"
  by (induction xs rule: join_spaces.induct) simp_all

lemma parent_chain_nonempty: "parent_chain h c xs \<Longrightarrow> xs \<noteq> []"
  by (induction rule: parent_chain.induct) simp_all

lemma CommandPath_loop_chain:
  "parent_chain h x xs \<Longrightarrow>
   CommandPath_loop h x (Name (h x) @ s) = Some (join_spaces (map (\<lambda>a. Name (h a)) (rev xs)) @ s)"
proof (induction arbitrary: s rule: parent_chain.induct)
  case (at_root h c)
  then show ?case by (simp add: CommandPath_loop.simps)
next
  case (climb h c p xs)
  have ne: "map (\<lambda>a. Name (h a)) (rev xs) \<noteq> []"
    using parent_chain_nonempty [OF climb.hyps(2)] by simp
  have "CommandPath_loop h c (Name (h c) @ s)
      = CommandPath_loop h p (Name (h p) @ ('' '' @ Name (h c) @ s))"
    using climb.hyps(1) by (subst CommandPath_loop.simps) simp
  also have "\<dots> = Some (join_spaces (map (\<lambda>a. Name (h a)) (rev xs)) @ '' '' @ Name (h c) @ s)"
    by (rule climb.IH)
  finally show ?case using join_spaces_snoc [OF ne, of "Name (h c)"] by simp
qed

text \<open>
  Claim C9, as amended.  For every node whose parent chain ends at a node without parent,
  \<open>CommandPath\<close> returns, and what it returns is the names of the nodes on the chain,
  from the root down to the node, joined by single spaces.
\<close>

theorem CommandPath_finite_chain:
  assumes "parent_chain h c xs"
  shows "CommandPath h c = Some (join_spaces (map (\<lambda>a. Name (h a)) (rev xs)))"
  using CommandPath_loop_chain [OF assms, of "[]"] by (simp add: CommandPath_def)

theorem CommandPath_finite_chain_witness:
  "parent_chain app_heap 1 [1, 0] \<and> CommandPath app_heap 1 = Some ''app sub''"
proof -
  have c: "parent_chain app_heap 1 [1, 0]"
    by (rule parent_chain.climb [where p = 0]; (rule parent_chain.at_root)?)
       (simp_all add: app_heap_simps zero_Command_def)
  from CommandPath_finite_chain [OF c] c show ?thesis
    by (simp add: app_heap_simps zero_Command_def Name_def)
qed

text \<open>
  The claim as stated fails: two nodes, each added as a child of the other.  Neither call
  panics, no node is added to itself, and the climb from either node never ends.
\<close>

lemma cyclic_heap_parents:
  "parent (cyclic_heap 0) = Some 1" "parent (cyclic_heap (Suc 0)) = Some 0"
  by (simp_all add: cyclic_heap_def two_nodes_def fresh_def zero_Command_def Let_def)

lemmas CommandPath_loop_induct =
  CommandPath_loop.raw_induct [where xa = "((h, x), s)" for h x s, simplified]

lemma CommandPath_loop_cyclic:
  assumes "CommandPath_loop h x s = Some y"
  shows "\<not> (h = cyclic_heap \<and> x < 2)"
proof (rule CommandPath_loop_induct
    [where P = "\<lambda>h x s y. \<not> (h = cyclic_heap \<and> x < 2)", OF _ assms])
  fix loop :: "heap \<Rightarrow> addr \<Rightarrow> string \<Rightarrow> string option" and h x s y
  assume IH: "\<And>h x s y. loop h x s = Some y \<Longrightarrow> \<not> (h = cyclic_heap \<and> x < 2)"
    and st: "(case parent (h x) of None \<Rightarrow> Some s
              | Some p \<Rightarrow> loop h p (Name (h p) @ '' '' @ s)) = Some y"
  show "\<not> (h = cyclic_heap \<and> x < 2)"
  proof
    assume a: "h = cyclic_heap \<and> x < 2"
    then consider "x = 0" | "x = 1" by linarith
    then show False
    proof cases
      case 1
      with a st cyclic_heap_parents(1)
      have "loop cyclic_heap 1 (Name (cyclic_heap 1) @ '' '' @ s) = Some y" by simp
      from IH [OF this] show False by simp
    next
      case 2
      with a st cyclic_heap_parents(2)
      have "loop cyclic_heap 0 (Name (cyclic_heap 0) @ '' '' @ s) = Some y" by simp
      from IH [OF this] show False by simp
    qed
  qed
qed

theorem CommandPath_cycle_counterexample:
  "fst (AddCommand two_nodes 0 [Some 1]) = None
   \<and> fst (AddCommand (snd (AddCommand two_nodes 0 [Some 1])) 1 [Some 0]) = None
   \<and> parent (cyclic_heap 0) = Some 1 \<and> parent (cyclic_heap 1) = Some 0
   \<and> CommandPath cyclic_heap 0 = None"
proof -
  have "CommandPath cyclic_heap 0 = None"
    using CommandPath_loop_cyclic [of cyclic_heap 0 "Name (cyclic_heap 0)"]
    by (cases "CommandPath cyclic_heap 0") (auto simp: CommandPath_def)
  then show ?thesis
    by (simp add: cyclic_heap_def two_nodes_def fresh_def zero_Command_def Let_def)
qed

section \<open>The merge of inherited flags: proofs\<close>

text \<open>One visit: what it changes and what it leaves alone.\<close>

lemma find_snoc:
  "find P (xs @ [y]) = (case find P xs of Some x \<Rightarrow> Some x | None \<Rightarrow> if P y then Some y else None)"
  by (induction xs) simp_all

lemma merge_flag_parent: "parent (merge_flag c h f y) = parent (h y)"
  by (simp add: merge_flag_def Flags_def Let_def split: option.splits)

lemma merge_flag_pflags: "pflags (merge_flag c h f y) = pflags (h y)"
  by (simp add: merge_flag_def Flags_def Let_def split: option.splits)

lemma merge_flag_local:
  "local_flag (merge_flag c h f) c n =
     (case local_flag h c n of
        Some g \<Rightarrow> Some g
      | None \<Rightarrow> if flag_Name f = n then Some f else None)"
  by (auto simp: merge_flag_def Flags_def Let_def local_flag_def Lookup_def AddFlag_def
      NewFlagSet_def find_snoc split: option.splits)

lemma merge_flag_id:
  "local_flag h c (flag_Name f) \<noteq> None \<Longrightarrow> merge_flag c h f = h"
  by (auto simp: merge_flag_def Flags_def Let_def local_flag_def split: option.splits)

lemma foldl_merge_flag_parent: "parent (foldl (merge_flag c) h fs y) = parent (h y)"
  by (induction fs arbitrary: h) (simp_all add: merge_flag_parent)

lemma foldl_merge_flag_pflags: "pflags (foldl (merge_flag c) h fs y) = pflags (h y)"
  by (induction fs arbitrary: h) (simp_all add: merge_flag_pflags)

lemma foldl_merge_flag_local:
  "local_flag (foldl (merge_flag c) h fs) c n =
     (case local_flag h c n of
        Some g \<Rightarrow> Some g
      | None \<Rightarrow> find (\<lambda>f. flag_Name f = n) fs)"
  by (induction fs arbitrary: h) (auto simp: merge_flag_local split: option.splits)

lemma foldl_merge_flag_id:
  "list_all (\<lambda>f. local_flag h c (flag_Name f) \<noteq> None) fs \<Longrightarrow> foldl (merge_flag c) h fs = h"
  by (induction fs) (simp_all add: merge_flag_id)

lemma rmerge_visit_unfold:
  "rmerge_visit h c x =
     (case pflags (h x) of
        None \<Rightarrow> h(x := (h x)\<lparr>pflags := Some (NewFlagSet (Name (h x))), flagErrorBuf := True\<rparr>)
      | Some pfs \<Rightarrow> foldl (merge_flag c) h (formal pfs))"
  by (simp add: rmerge_visit_def HasPersistentFlags_def PersistentFlags_def Let_def
      FlagSet_HasFlags_def NewFlagSet_def split: option.splits)

lemma rmerge_visit_parent: "parent (rmerge_visit h c x y) = parent (h y)"
  by (simp add: rmerge_visit_unfold foldl_merge_flag_parent split: option.splits)

lemma rmerge_visit_pflags:
  "pflags (rmerge_visit h c x y) =
     (if y = x \<and> pflags (h x) = None then Some (NewFlagSet (Name (h x))) else pflags (h y))"
  by (simp add: rmerge_visit_unfold foldl_merge_flag_pflags split: option.splits)

lemma rmerge_visit_persistent: "persistent_flag (rmerge_visit h c x) y n = persistent_flag h y n"
  by (simp add: persistent_flag_def rmerge_visit_pflags NewFlagSet_def Lookup_def)

lemma rmerge_visit_local:
  "local_flag (rmerge_visit h c x) c n =
     (case local_flag h c n of
        Some g \<Rightarrow> Some g
      | None \<Rightarrow> persistent_flag h x n)"
proof (cases "pflags (h x)")
  case None
  then have "local_flag (rmerge_visit h c x) c n = local_flag h c n"
    by (simp add: rmerge_visit_unfold local_flag_def)
  with None show ?thesis
    by (simp add: persistent_flag_def split: option.splits)
next
  case (Some pfs)
  then show ?thesis
    by (simp add: rmerge_visit_unfold foldl_merge_flag_local persistent_flag_def Lookup_def
        split: option.splits)
qed

lemma rmerge_visit_id: "saturated h c x \<Longrightarrow> rmerge_visit h c x = h"
  by (auto simp: saturated_def rmerge_visit_unfold foldl_merge_flag_id split: option.splits)

lemma find_in_set: "f \<in> set fs \<Longrightarrow> P f \<Longrightarrow> find P fs \<noteq> None"
  by (simp add: find_None_iff) blast

lemma rmerge_visit_saturates: "saturated (rmerge_visit h c x) c x"
proof (cases "pflags (h x)")
  case None
  then show ?thesis
    by (simp add: saturated_def rmerge_visit_pflags NewFlagSet_def)
next
  case (Some pfs)
  have "local_flag (rmerge_visit h c x) c (flag_Name f) \<noteq> None" if "f \<in> set (formal pfs)" for f
    using that Some find_in_set [of f "formal pfs" "\<lambda>g. flag_Name g = flag_Name f"]
    by (simp add: rmerge_visit_local persistent_flag_def Lookup_def split: option.splits)
  with Some show ?thesis
    by (simp add: saturated_def rmerge_visit_pflags list_all_iff)
qed

lemma rmerge_visit_keeps_saturated:
  assumes "saturated h c y"
  shows "saturated (rmerge_visit h c x) c y"
proof -
  from assms obtain pfs where p: "pflags (h y) = Some pfs"
    and l: "\<forall>f \<in> set (formal pfs). local_flag h c (flag_Name f) \<noteq> None"
    by (auto simp: saturated_def list_all_iff split: option.splits)
  from p have "pflags (rmerge_visit h c x y) = Some pfs"
    by (auto simp: rmerge_visit_pflags)
  moreover from l have "\<forall>f \<in> set (formal pfs). local_flag (rmerge_visit h c x) c (flag_Name f) \<noteq> None"
    by (auto simp: rmerge_visit_local)
  ultimately show ?thesis
    by (simp add: saturated_def list_all_iff)
qed

text \<open>The whole climb, along a finite parent chain and in general.\<close>

lemmas rmerge_induct = rmerge.raw_induct [where xa = "((h, c), x)" for h c x, simplified]

lemma first_persistent_cong:
  "(\<And>y. persistent_flag h' y n = persistent_flag h y n) \<Longrightarrow>
   first_persistent h' xs n = first_persistent h xs n"
  by (induction xs) (simp_all split: option.splits)

lemma rmerge_chain:
  assumes "parent_chain h0 x xs" and "\<And>y. parent (h y) = parent (h0 y)"
  shows "\<exists>h'. rmerge h c x = Some h'
           \<and> local_flag h' c n =
               (case local_flag h c n of
                  Some g \<Rightarrow> Some g
                | None \<Rightarrow> first_persistent h xs n)"
  using assms
proof (induction arbitrary: h rule: parent_chain.induct)
  case (at_root h0 x)
  then have "rmerge h c x = Some (rmerge_visit h c x)"
    by (subst rmerge.simps) (simp add: rmerge_visit_parent)
  then show ?case
    by (simp add: rmerge_visit_local split: option.splits)
next
  case (climb h0 x p xs)
  let ?h1 = "rmerge_visit h c x"
  have step: "rmerge h c x = rmerge ?h1 c p"
    using climb.hyps(1) climb.prems by (subst rmerge.simps) (simp add: rmerge_visit_parent)
  have "\<And>y. parent (?h1 y) = parent (h0 y)"
    using climb.prems by (simp add: rmerge_visit_parent)
  from climb.IH [OF this] obtain h' where
    r: "rmerge ?h1 c p = Some h'"
    and l: "local_flag h' c n =
              (case local_flag ?h1 c n of
                 Some g \<Rightarrow> Some g
               | None \<Rightarrow> first_persistent ?h1 xs n)"
    by blast
  have "first_persistent ?h1 xs n = first_persistent h xs n"
    by (rule first_persistent_cong) (simp add: rmerge_visit_persistent)
  with l have "local_flag h' c n =
      (case local_flag h c n of
         Some g \<Rightarrow> Some g
       | None \<Rightarrow> first_persistent h (x # xs) n)"
    by (simp add: rmerge_visit_local split: option.splits)
  with step r show ?case by simp
qed

lemma merge_chain:
  assumes "parent_chain h c xs"
  shows "\<exists>h'. mergePersistentFlags h c = Some h'
           \<and> local_flag h' c n =
               (case local_flag h c n of
                  Some g \<Rightarrow> Some g
                | None \<Rightarrow> first_persistent h xs n)"
  unfolding mergePersistentFlags_def using rmerge_chain [OF assms, of h] by simp

lemma rmerge_keeps_local:
  assumes "rmerge h c x = Some h'"
  shows "local_flag h c n = Some f \<longrightarrow> local_flag h' c n = Some f"
proof (rule rmerge_induct
    [where P = "\<lambda>h c x h'. local_flag h c n = Some f \<longrightarrow> local_flag h' c n = Some f",
      OF _ assms])
  fix loop :: "heap \<Rightarrow> addr \<Rightarrow> addr \<Rightarrow> heap option" and h c x h'
  assume IH: "\<And>h c x h'. loop h c x = Some h' \<Longrightarrow>
                local_flag h c n = Some f \<longrightarrow> local_flag h' c n = Some f"
    and st: "(let h1 = rmerge_visit h c x
              in case parent (h1 x) of None \<Rightarrow> Some h1 | Some p \<Rightarrow> loop h1 c p) = Some h'"
  show "local_flag h c n = Some f \<longrightarrow> local_flag h' c n = Some f"
  proof
    assume a: "local_flag h c n = Some f"
    then have v: "local_flag (rmerge_visit h c x) c n = Some f"
      by (simp add: rmerge_visit_local)
    show "local_flag h' c n = Some f"
    proof (cases "parent (rmerge_visit h c x x)")
      case None
      with st v show ?thesis by (simp add: Let_def)
    next
      case (Some p)
      with st have "loop (rmerge_visit h c x) c p = Some h'" by (simp add: Let_def)
      from IH [OF this] v show ?thesis by simp
    qed
  qed
qed

lemma rmerge_fixed:
  assumes "rmerge h c x = Some h'"
  shows "(\<forall>y. parent (h' y) = parent (h y))
       \<and> (\<forall>y. saturated h c y \<longrightarrow> saturated h' c y)
       \<and> rmerge h' c x = Some h'"
proof (rule rmerge_induct
    [where P = "\<lambda>h c x h'. (\<forall>y. parent (h' y) = parent (h y))
       \<and> (\<forall>y. saturated h c y \<longrightarrow> saturated h' c y)
       \<and> rmerge h' c x = Some h'", OF _ assms])
  fix loop :: "heap \<Rightarrow> addr \<Rightarrow> addr \<Rightarrow> heap option" and h c x h'
  assume IH: "\<And>h c x h'. loop h c x = Some h' \<Longrightarrow>
                (\<forall>y. parent (h' y) = parent (h y))
              \<and> (\<forall>y. saturated h c y \<longrightarrow> saturated h' c y)
              \<and> rmerge h' c x = Some h'"
    and st: "(let h1 = rmerge_visit h c x
              in case parent (h1 x) of None \<Rightarrow> Some h1 | Some p \<Rightarrow> loop h1 c p) = Some h'"
  let ?h1 = "rmerge_visit h c x"
  show "(\<forall>y. parent (h' y) = parent (h y))
       \<and> (\<forall>y. saturated h c y \<longrightarrow> saturated h' c y)
       \<and> rmerge h' c x = Some h'"
  proof (cases "parent (?h1 x)")
    case None
    with st have e: "h' = ?h1" by (simp add: Let_def)
    have "rmerge_visit ?h1 c x = ?h1"
      by (rule rmerge_visit_id) (rule rmerge_visit_saturates)
    with None have "rmerge ?h1 c x = Some ?h1"
      by (subst rmerge.simps) simp
    with e show ?thesis
      by (simp add: rmerge_visit_parent rmerge_visit_keeps_saturated)
  next
    case (Some p)
    with st have "loop ?h1 c p = Some h'" by (simp add: Let_def)
    from IH [OF this] have
      par: "\<forall>y. parent (h' y) = parent (?h1 y)"
      and sat: "\<forall>y. saturated ?h1 c y \<longrightarrow> saturated h' c y"
      and again: "rmerge h' c p = Some h'"
      by simp_all
    from sat have "saturated h' c x" by (simp add: rmerge_visit_saturates)
    then have "rmerge_visit h' c x = h'" by (rule rmerge_visit_id)
    moreover from par Some have "parent (h' x) = Some p" by simp
    ultimately have "rmerge h' c x = Some h'"
      using again by (subst rmerge.simps) simp
    with par sat show ?thesis
      by (simp add: rmerge_visit_parent rmerge_visit_keeps_saturated)
  qed
qed

lemma three_level_simps:
  "three_level 0 = zero_Command\<lparr>Use := ''root'',
      pflags := Some \<lparr>fs_name = ''root'', formal = [xflag 100]\<rparr>, commands := [1]\<rparr>"
  "three_level (Suc 0) = zero_Command\<lparr>Use := ''mid'',
      pflags := Some \<lparr>fs_name = ''mid'', formal = [xflag 101]\<rparr>, commands := [2],
      parent := Some 0\<rparr>"
  "three_level 2 = zero_Command\<lparr>Use := ''leaf'', parent := Some 1\<rparr>"
  by (simp_all add: three_level_def fresh_def zero_Command_def Let_def)

lemma three_level_chain: "parent_chain three_level 2 [2, 1, 0]"
  by (rule parent_chain.climb [where p = 1], simp add: three_level_simps zero_Command_def,
      rule parent_chain.climb [where p = 0], simp add: three_level_simps zero_Command_def,
      rule parent_chain.at_root, simp add: three_level_simps zero_Command_def)

lemma parent_chain_same_parents:
  assumes "parent_chain h x xs" and "\<And>y. parent (h' y) = parent (h y)"
  shows "parent_chain h' x xs"
  using assms
  by (induction rule: parent_chain.induct) (auto intro: parent_chain.intros)

lemma merged_flag_chain:
  assumes "parent_chain h c xs"
  shows "merged_flag h c n =
           (case local_flag h c n of
              Some g \<Rightarrow> Some g
            | None \<Rightarrow> first_persistent h xs n)"
  using merge_chain [OF assms, of n] by (auto simp: merged_flag_def)

text \<open>
  Claim C4, as amended.  Let the parent and the grandparent of the target both define the
  name in their inheritable sets, let the parent chain above the grandparent be finite, and
  let the local set of the target not define the name.  Then the merge returns, and
  afterwards the name resolves in the local set of the target to the definition in the
  target's own inheritable set if there is one, and to the parent's definition otherwise.
\<close>

theorem merge_nearest_ancestor:
  assumes "parent (h c) = Some p" and "parent (h p) = Some g" and "parent_chain h g xs"
    and "persistent_flag h p n = Some fp" and "persistent_flag h g n = Some fg"
    and "local_flag h c n = None"
  shows "merged_flag h c n =
           (case persistent_flag h c n of Some fc \<Rightarrow> Some fc | None \<Rightarrow> Some fp)"
proof -
  have "parent_chain h c (c # p # xs)"
    using assms(1,2,3) by (auto intro: parent_chain.climb)
  from merge_chain [OF this, of n] assms(4,6) show ?thesis
    by (auto simp: merged_flag_def split: option.splits)
qed

theorem merge_nearest_ancestor_witness:
  "parent (three_level 2) = Some 1 \<and> parent (three_level 1) = Some 0
   \<and> parent_chain three_level 0 [0]
   \<and> persistent_flag three_level 1 ''x'' = Some (xflag 101)
   \<and> persistent_flag three_level 0 ''x'' = Some (xflag 100)
   \<and> local_flag three_level 2 ''x'' = None
   \<and> persistent_flag three_level 2 ''x'' = None
   \<and> merged_flag three_level 2 ''x'' = Some (xflag 101)"
proof -
  have c: "parent_chain three_level 0 [0]"
    by (rule parent_chain.at_root) (simp add: three_level_simps zero_Command_def)
  have f: "parent (three_level 2) = Some 1" "parent (three_level 1) = Some 0"
    "persistent_flag three_level 1 ''x'' = Some (xflag 101)"
    "persistent_flag three_level 0 ''x'' = Some (xflag 100)"
    "local_flag three_level 2 ''x'' = None"
    "persistent_flag three_level 2 ''x'' = None"
    by (simp_all add: three_level_simps zero_Command_def persistent_flag_def local_flag_def
        Lookup_def xflag_def)
  from merge_nearest_ancestor [OF f(1) f(2) c f(3) f(4) f(5)] f c show ?thesis
    by simp
qed

text \<open>
  The claim as stated fails: the target's local set does not define \<open>x\<close>, its inheritable
  set does, and the merge starts at the target itself; \<open>x\<close> resolves to that definition,
  not to the parent's.
\<close>

theorem merge_nearest_ancestor_counterexample:
  "parent (own_persistent_tree 2) = Some 1 \<and> parent (own_persistent_tree 1) = Some 0
   \<and> persistent_flag own_persistent_tree 1 ''x'' = Some (xflag 101)
   \<and> persistent_flag own_persistent_tree 0 ''x'' = Some (xflag 100)
   \<and> local_flag own_persistent_tree 2 ''x'' = None
   \<and> merged_flag own_persistent_tree 2 ''x'' = Some (xflag 102)
   \<and> xflag 102 \<noteq> xflag 101"
proof -
  have "parent_chain own_persistent_tree 2 [2, 1, 0]"
    by (rule parent_chain_same_parents [OF three_level_chain]) (simp add: own_persistent_tree_def)
  from merged_flag_chain [OF this, of "''x''"] show ?thesis
    by (simp add: own_persistent_tree_def three_level_simps zero_Command_def
        persistent_flag_def local_flag_def Lookup_def xflag_def)
qed

text \<open>
  Claim C5.  If the local set of the target defines a name, then in every heap the merge
  returns the name still resolves to that definition, and along a finite parent chain the
  merge does return.
\<close>

theorem merge_keeps_local_flag:
  assumes "local_flag h c n = Some f"
  shows "(\<forall>h'. mergePersistentFlags h c = Some h' \<longrightarrow> local_flag h' c n = Some f)
       \<and> (parent_chain h c xs \<longrightarrow> merged_flag h c n = Some f)"
proof -
  have "parent_chain h c xs \<longrightarrow> merged_flag h c n = Some f"
    using merge_chain [of h c xs n] assms by (auto simp: merged_flag_def)
  then show ?thesis
    using assms rmerge_keeps_local [of h c c _ n f] by (simp add: mergePersistentFlags_def)
qed

theorem merge_keeps_local_flag_witness:
  "local_flag own_local_tree 2 ''x'' = Some (xflag 102)
   \<and> parent_chain own_local_tree 2 [2, 1, 0]
   \<and> persistent_flag own_local_tree 1 ''x'' = Some (xflag 101)
   \<and> merged_flag own_local_tree 2 ''x'' = Some (xflag 102)"
proof -
  have c: "parent_chain own_local_tree 2 [2, 1, 0]"
    by (rule parent_chain_same_parents [OF three_level_chain]) (simp add: own_local_tree_def)
  have l: "local_flag own_local_tree 2 ''x'' = Some (xflag 102)"
    "persistent_flag own_local_tree 1 ''x'' = Some (xflag 101)"
    by (simp_all add: own_local_tree_def three_level_simps zero_Command_def local_flag_def
        persistent_flag_def Lookup_def xflag_def)
  from merge_keeps_local_flag [OF l(1), of "[2, 1, 0]"] c l show ?thesis
    by simp
qed

text \<open>
  Claim C6.  The merge called twice gives what the merge called once gives: the second
  call returns the heap it was given, and with it the same local flag set of the target.
  Along a finite parent chain the merge returns.
\<close>

theorem merge_idempotent:
  "merge_twice h c = mergePersistentFlags h c
   \<and> (parent_chain h c xs \<longrightarrow> mergePersistentFlags h c \<noteq> None)"
proof -
  have "merge_twice h c = mergePersistentFlags h c"
    using rmerge_fixed [of h c c]
    by (cases "mergePersistentFlags h c") (simp_all add: merge_twice_def mergePersistentFlags_def)
  moreover have "parent_chain h c xs \<longrightarrow> mergePersistentFlags h c \<noteq> None"
    using merge_chain [of h c xs "[]"] by auto
  ultimately show ?thesis by simp
qed

theorem merge_idempotent_witness:
  "parent_chain three_level 2 [2, 1, 0]
   \<and> mergePersistentFlags three_level 2 \<noteq> None
   \<and> merge_twice three_level 2 = mergePersistentFlags three_level 2
   \<and> merged_flag three_level 2 ''x'' = Some (xflag 101)"
proof -
  have "merged_flag three_level 2 ''x'' = Some (xflag 101)"
    using merged_flag_chain [OF three_level_chain, of "''x''"]
    by (simp add: three_level_simps zero_Command_def persistent_flag_def local_flag_def
        Lookup_def xflag_def)
  with merge_idempotent [of three_level 2 "[2, 1, 0]"] three_level_chain show ?thesis
    by simp
qed

end
